theory Spec2Isabelle
  imports Main
begin

section \<open>Memory model\<close>

text \<open>
  The lists of \<^verbatim>\<open>src/src/lists.cpp\<close> are intrusive: a node is a pair of raw pointers to
  its neighbours, and a list is one sentinel node (\<^verbatim>\<open>head_\<close>). A node is identified by
  its address, a null pointer is \<open>None\<close>, and the memory is a store from addresses to
  the two pointers kept there. Every function that writes through a pointer takes the store
  and returns the updated one, so that aliasing between \<^verbatim>\<open>this\<close>, its neighbours and the
  head is visible.
\<close>

type_synonym addr = nat

type_synonym pointer = "addr option"

record double_list_links_base =
  previous_ptr :: pointer
  next_ptr :: pointer

type_synonym heap = "addr \<Rightarrow> double_list_links_base"

text \<open>
  A failed \<^verbatim>\<open>assert\<close> of a checked build and the dereference of a null pointer end the
  program; both are results of the model.
\<close>

datatype error = AssertionFailure | NullDereference

text \<open>Storage cleared by the BSS initialisation: every pointer is null.\<close>

definition zero_heap :: heap where
  "zero_heap = (\<lambda>a. \<lparr>previous_ptr = None, next_ptr = None\<rparr>)"

subsection \<open>Inline accessors\<close>

text \<open>
  Modelled from the spec: the accessors and setters \<^verbatim>\<open>next()\<close>, \<^verbatim>\<open>previous()\<close>,
  \<^verbatim>\<open>next(n)\<close>, \<^verbatim>\<open>previous(n)\<close> are declared in \<^verbatim>\<open>lists.h\<close> and defined in the
  missing \<^verbatim>\<open>inlines.h\<close>; they read and write the field of the same name. The getters
  are the record selectors \<open>next_ptr\<close> and \<open>previous_ptr\<close> (the fields \<^verbatim>\<open>next_\<close> and \<^verbatim>\<open>previous_\<close>) applied to \<open>h this\<close>.
\<close>

definition set_next :: "addr \<Rightarrow> pointer \<Rightarrow> heap \<Rightarrow> heap" where
  "set_next this n h = h(this := (h this)\<lparr>next_ptr := n\<rparr>)"

definition set_previous :: "addr \<Rightarrow> pointer \<Rightarrow> heap \<Rightarrow> heap" where
  "set_previous this n h = h(this := (h this)\<lparr>previous_ptr := n\<rparr>)"

text \<open>
  Modelled from the spec: \<^verbatim>\<open>static_double_list_links::clear()\<close> (\<^verbatim>\<open>nullify()\<close> in
  \<^verbatim>\<open>lists.h\<close>) is defined in the missing \<^verbatim>\<open>inlines.h\<close>; it resets the two pointers of
  the node to null.
\<close>

definition static_double_list_links_clear :: "addr \<Rightarrow> heap \<Rightarrow> heap" where
  "static_double_list_links_clear this h =
     h(this := (h this)\<lparr>previous_ptr := None, next_ptr := None\<rparr>)"

section \<open>static\_double\_list\_links\<close>

text \<open>
  \<^verbatim>\<open>linked()\<close>: true when both pointers are non-null; otherwise the two assertions
  require both to be null before false is returned.
\<close>

definition static_double_list_links_linked :: "addr \<Rightarrow> heap \<Rightarrow> error + bool" where
  "static_double_list_links_linked this h =
     (if next_ptr (h this) \<noteq> None \<and> previous_ptr (h this) \<noteq> None then Inr True
      else if next_ptr (h this) \<noteq> None then Inl AssertionFailure
      else if previous_ptr (h this) \<noteq> None then Inl AssertionFailure
      else Inr False)"

text \<open>
  \<^verbatim>\<open>unlink()\<close>: the three statements after the guard are executed in the order of the
  source, each reading the store left by the one before it.
\<close>

definition static_double_list_links_unlink :: "addr \<Rightarrow> heap \<Rightarrow> error + heap" where
  "static_double_list_links_unlink this h =
     (case static_double_list_links_linked this h of
        Inl e \<Rightarrow> Inl e
      | Inr b \<Rightarrow>
          if \<not> b then
            (if next_ptr (h this) \<noteq> None then Inl AssertionFailure
             else if previous_ptr (h this) \<noteq> None then Inl AssertionFailure
             else Inr h)
          else
            (case previous_ptr (h this) of
               None \<Rightarrow> Inl NullDereference
             | Some p \<Rightarrow>
                 let h1 = set_next p (next_ptr (h this)) h in
                 (case next_ptr (h1 this) of
                    None \<Rightarrow> Inl NullDereference
                  | Some n \<Rightarrow>
                      let h2 = set_previous n (previous_ptr (h1 this)) h1 in
                      Inr (static_double_list_links_clear this h2))))"

section \<open>static\_double\_list\<close>

text \<open>
  A list object is named by the address \<open>head\<close> of its \<^verbatim>\<open>head_\<close> member.

  Modelled from the spec: \<^verbatim>\<open>uninitialized()\<close> and \<^verbatim>\<open>tail()\<close> are defined in the
  missing \<^verbatim>\<open>inlines.h\<close>. The spec has \<^verbatim>\<open>uninitialized()\<close> true when both pointers of
  the head are null, and \<^verbatim>\<open>tail()\<close> the pointer to the last element, or to the
  sentinel when the list is empty: the head's \<^verbatim>\<open>previous\<close> pointer.
\<close>

definition static_double_list_uninitialized :: "addr \<Rightarrow> heap \<Rightarrow> bool" where
  "static_double_list_uninitialized head h =
     (previous_ptr (h head) = None \<and> next_ptr (h head) = None)"

definition static_double_list_tail :: "addr \<Rightarrow> heap \<Rightarrow> pointer" where
  "static_double_list_tail head h = previous_ptr (h head)"

definition static_double_list_clear :: "addr \<Rightarrow> heap \<Rightarrow> heap" where
  "static_double_list_clear head h =
     (let h1 = set_next head (Some head) h in set_previous head (Some head) h1)"

text \<open>
  \<^verbatim>\<open>empty()\<close> is a \<^verbatim>\<open>const\<close> member: it returns its answer and the store as it
  found it.
\<close>

definition static_double_list_empty :: "addr \<Rightarrow> heap \<Rightarrow> bool \<times> heap" where
  "static_double_list_empty head h =
     (next_ptr (h head) = Some head \<or> static_double_list_uninitialized head h, h)"

text \<open>An iterator is the pointer it holds.\<close>

definition static_double_list_begin :: "addr \<Rightarrow> heap \<Rightarrow> pointer \<times> heap" where
  "static_double_list_begin head h =
     (let h1 = (if static_double_list_uninitialized head h
                then static_double_list_clear head h else h)
      in (next_ptr (h1 head), h1))"

definition static_double_list_end :: "addr \<Rightarrow> pointer" where
  "static_double_list_end head = Some head"

definition static_double_list_insert_after :: "addr \<Rightarrow> pointer \<Rightarrow> heap \<Rightarrow> error + heap" where
  "static_double_list_insert_after node after h =
     (if previous_ptr (h node) \<noteq> None then Inl AssertionFailure
      else if next_ptr (h node) \<noteq> None then Inl AssertionFailure
      else
        (case after of
           None \<Rightarrow> Inl NullDereference
         | Some a \<Rightarrow>
             if next_ptr (h a) = None then Inl AssertionFailure
             else
               let h1 = set_previous node after h;
                   h2 = set_next node (next_ptr (h1 a)) h1
               in (case next_ptr (h2 a) of
                     None \<Rightarrow> Inl NullDereference
                   | Some s \<Rightarrow>
                       let h3 = set_previous s (Some node) h2
                       in Inr (set_next a (Some node) h3))))"

definition static_double_list_link :: "addr \<Rightarrow> addr \<Rightarrow> heap \<Rightarrow> error + heap" where
  "static_double_list_link head node h =
     (let h1 = (if static_double_list_uninitialized head h
                then static_double_list_clear head h else h)
      in static_double_list_insert_after node (static_double_list_tail head h1) h1)"

section \<open>double\_list\<close>

text \<open>
  In \<^verbatim>\<open>lists.cpp\<close> the class \<^verbatim>\<open>double_list\<close> is the list with a constructor: it
  shares \<^verbatim>\<open>clear\<close>, \<^verbatim>\<open>empty\<close>, \<^verbatim>\<open>tail\<close> and \<^verbatim>\<open>insert_after\<close> with
  \<^verbatim>\<open>static_double_list\<close>. The constructor clears the head, the destructor asserts
  \<^verbatim>\<open>empty()\<close>, and \<^verbatim>\<open>link\<close> inserts at the tail with no lazy initialisation.
\<close>

definition double_list_construct :: "addr \<Rightarrow> heap \<Rightarrow> heap" where
  "double_list_construct head h = static_double_list_clear head h"

definition double_list_destruct :: "addr \<Rightarrow> heap \<Rightarrow> error + heap" where
  "double_list_destruct head h =
     (if fst (static_double_list_empty head h) then Inr h else Inl AssertionFailure)"

definition double_list_link :: "addr \<Rightarrow> addr \<Rightarrow> heap \<Rightarrow> error + heap" where
  "double_list_link head node h =
     static_double_list_insert_after node (static_double_list_tail head h) h"

section \<open>Iteration\<close>

text \<open>
  The loop \<^verbatim>\<open>for (it = begin (); it != end (); ++it)\<close>, recording the nodes it visits.
  Modelled from the spec: \<^verbatim>\<open>operator++\<close> is defined in the missing \<^verbatim>\<open>inlines.h\<close>;
  the spec has it follow \<^verbatim>\<open>next()\<close>. On a store whose pointers never lead back to the
  head the loop does not end: the result is \<open>None\<close>. Stepping a null iterator is a null
  dereference.
\<close>

partial_function (option) traverse ::
  "addr \<Rightarrow> heap \<Rightarrow> pointer \<Rightarrow> addr list \<Rightarrow> (error + addr list) option" where
  "traverse head h it visited =
     (if it = static_double_list_end head then Some (Inr visited)
      else (case it of
              None \<Rightarrow> Some (Inl NullDereference)
            | Some a \<Rightarrow> traverse head h (next_ptr (h a)) (visited @ [a])))"

definition iterate :: "addr \<Rightarrow> heap \<Rightarrow> (error + addr list) option \<times> heap" where
  "iterate head h =
     (let (it, h1) = static_double_list_begin head h in (traverse head h1 it [], h1))"

section \<open>Sequences of calls\<close>

text \<open>
  The calls a client of one list can make through its public interface, on element nodes
  given by address: \<^verbatim>\<open>link (node)\<close>, \<^verbatim>\<open>node.unlink ()\<close>, \<^verbatim>\<open>begin ()\<close>,
  \<^verbatim>\<open>empty ()\<close> and \<^verbatim>\<open>clear ()\<close>. A sequence of calls stops at the first failed
  assertion.
\<close>

datatype operation = Link_tail addr | Unlink addr | Begin | Is_empty | Clear

fun step :: "addr \<Rightarrow> operation \<Rightarrow> heap \<Rightarrow> error + heap" where
  "step head (Link_tail n) h = static_double_list_link head n h"
| "step head (Unlink n) h = static_double_list_links_unlink n h"
| "step head Begin h = Inr (snd (static_double_list_begin head h))"
| "step head Is_empty h = Inr (snd (static_double_list_empty head h))"
| "step head Clear h = Inr (static_double_list_clear head h)"

fun run :: "addr \<Rightarrow> operation list \<Rightarrow> heap \<Rightarrow> error + heap" where
  "run head [] h = Inr h"
| "run head (c # cs) h =
     (case step head c h of Inl e \<Rightarrow> Inl e | Inr h1 \<Rightarrow> run head cs h1)"

fun operand :: "operation \<Rightarrow> addr list" where
  "operand (Link_tail n) = [n]"
| "operand (Unlink n) = [n]"
| "operand Begin = []"
| "operand Is_empty = []"
| "operand Clear = []"

definition operands :: "operation list \<Rightarrow> addr list" where
  "operands cs = concat (map operand cs)"

section \<open>The list a store represents\<close>

text \<open>
  \<open>chain h p xs q\<close>: starting at \<open>p\<close>, the \<^verbatim>\<open>next\<close> pointers run through \<open>xs\<close> to
  \<open>q\<close>, and the \<^verbatim>\<open>previous\<close> pointers run back. A store holds the list \<open>xs\<close> at
  \<open>head\<close> when the chain from the head through \<open>xs\<close> closes at the head and no node
  occurs twice.
\<close>

fun chain :: "heap \<Rightarrow> addr \<Rightarrow> addr list \<Rightarrow> addr \<Rightarrow> bool" where
  "chain h p [] q = (next_ptr (h p) = Some q \<and> previous_ptr (h q) = Some p)"
| "chain h p (x # xs) q =
     (next_ptr (h p) = Some x \<and> previous_ptr (h x) = Some p \<and> chain h x xs q)"

definition is_list :: "addr \<Rightarrow> heap \<Rightarrow> addr list \<Rightarrow> bool" where
  "is_list head h xs = (distinct (head # xs) \<and> chain h head xs head)"

definition rest_unlinked :: "addr \<Rightarrow> heap \<Rightarrow> addr list \<Rightarrow> bool" where
  "rest_unlinked head h xs =
     (\<forall>a. a \<notin> set (head # xs) \<longrightarrow> previous_ptr (h a) = None \<and> next_ptr (h a) = None)"

text \<open>The element nodes for which \<^verbatim>\<open>linked()\<close> answers true.\<close>

definition linked_nodes :: "addr \<Rightarrow> heap \<Rightarrow> addr set" where
  "linked_nodes head h = {a. a \<noteq> head \<and> static_double_list_links_linked a h = Inr True}"

text \<open>
  An empty list to start from: either no call has been made and every node is as the BSS
  initialisation left it, or the head alone has been initialised by \<^verbatim>\<open>clear ()\<close>.
\<close>

definition initially_empty :: "addr \<Rightarrow> heap \<Rightarrow> bool" where
  "initially_empty head h = (h = zero_heap \<or> h = static_double_list_clear head zero_heap)"

text \<open>
  The invariant of a list that is used through \<^verbatim>\<open>link\<close>, \<^verbatim>\<open>unlink\<close>, \<^verbatim>\<open>begin\<close>
  and \<^verbatim>\<open>empty\<close>: either every node is still zero-initialised, or the head holds a list
  and every node outside the list has both pointers null.
\<close>

definition list_inv :: "addr \<Rightarrow> heap \<Rightarrow> bool" where
  "list_inv head h =
     ((\<forall>a. previous_ptr (h a) = None \<and> next_ptr (h a) = None)
      \<or> (\<exists>xs. is_list head h xs \<and> rest_unlinked head h xs))"

text \<open>
  A weaker invariant, kept also by \<^verbatim>\<open>clear ()\<close>, which leaves the elements it drops
  with their old pointers: no node has exactly one null pointer; a pointer of a node leads
  to a node that is itself linked; and a link into a node other than the head is matched by
  that node's link back.
\<close>

definition links_ok :: "addr \<Rightarrow> (addr \<Rightarrow> pointer) \<Rightarrow> (addr \<Rightarrow> pointer) \<Rightarrow> bool" where
  "links_ok head pv nx =
     ((\<forall>a. (pv a = None) = (nx a = None))
      \<and> (\<forall>a b. pv a = Some b \<or> nx a = Some b \<longrightarrow> pv b \<noteq> None)
      \<and> (\<forall>a b. b \<noteq> head \<longrightarrow> nx a = Some b \<longrightarrow> pv b = Some a)
      \<and> (\<forall>a b. b \<noteq> head \<longrightarrow> pv a = Some b \<longrightarrow> nx b = Some a))"

definition links_inv :: "addr \<Rightarrow> heap \<Rightarrow> bool" where
  "links_inv head h = links_ok head (\<lambda>a. previous_ptr (h a)) (\<lambda>a. next_ptr (h a))"

section \<open>intrusive\_list\<close>

text \<open>
  Modelled from the spec: the members of \<^verbatim>\<open>intrusive_list\<close> and of its iterator are
  declared in \<^verbatim>\<open>lists.h\<close> and defined in the missing \<^verbatim>\<open>inlines.h\<close>. The spec has
  the adaptor configured with the offset of the link member inside the owning object. It
  links an owner by locating that member and delegating to the underlying list; it
  recovers an owner from a link node by subtracting the offset (\<^verbatim>\<open>get_pointer\<close>), on
  every dereference and removal; \<^verbatim>\<open>unlink_head\<close> and \<^verbatim>\<open>unlink_tail\<close> remove the first
  and the last owner and return a pointer to it, or null when the list was empty. The
  underlying list is the \<^verbatim>\<open>static_double_list\<close> of \<^verbatim>\<open>lists.cpp\<close>.
\<close>

definition link_member :: "nat \<Rightarrow> addr \<Rightarrow> addr" where
  "link_member offset object = object + offset"

definition intrusive_list_get_pointer :: "nat \<Rightarrow> addr \<Rightarrow> addr" where
  "intrusive_list_get_pointer offset node = node - offset"

definition intrusive_list_link_tail :: "nat \<Rightarrow> addr \<Rightarrow> addr \<Rightarrow> heap \<Rightarrow> error + heap" where
  "intrusive_list_link_tail offset head object h =
     static_double_list_link head (link_member offset object) h"

definition intrusive_list_iterate ::
  "nat \<Rightarrow> addr \<Rightarrow> heap \<Rightarrow> (error + addr list) option \<times> heap" where
  "intrusive_list_iterate offset head h =
     (let (r, h1) = iterate head h
      in (map_option (map_sum id (map (intrusive_list_get_pointer offset))) r, h1))"

definition intrusive_list_unlink_head ::
  "nat \<Rightarrow> addr \<Rightarrow> heap \<Rightarrow> error + (pointer \<times> heap)" where
  "intrusive_list_unlink_head offset head h =
     (if fst (static_double_list_empty head h) then Inr (None, h)
      else
        (case next_ptr (h head) of
           None \<Rightarrow> Inl NullDereference
         | Some link \<Rightarrow>
             (case static_double_list_links_unlink link h of
                Inl e \<Rightarrow> Inl e
              | Inr h1 \<Rightarrow> Inr (Some (intrusive_list_get_pointer offset link), h1))))"

definition intrusive_list_unlink_tail ::
  "nat \<Rightarrow> addr \<Rightarrow> heap \<Rightarrow> error + (pointer \<times> heap)" where
  "intrusive_list_unlink_tail offset head h =
     (if fst (static_double_list_empty head h) then Inr (None, h)
      else
        (case static_double_list_tail head h of
           None \<Rightarrow> Inl NullDereference
         | Some link \<Rightarrow>
             (case static_double_list_links_unlink link h of
                Inl e \<Rightarrow> Inl e
              | Inr h1 \<Rightarrow> Inr (Some (intrusive_list_get_pointer offset link), h1))))"

section \<open>Single steps, pointer by pointer\<close>

lemma unlink_pointwise:
  assumes "previous_ptr (h n) = Some p" and "next_ptr (h n) = Some s"
  shows "\<exists>h'. static_double_list_links_unlink n h = Inr h'
    \<and> (\<forall>a. next_ptr (h' a) = (if a = n then None else if a = p then Some s else next_ptr (h a)))
    \<and> (\<forall>a. previous_ptr (h' a) = (if a = n then None else if a = s then Some p else previous_ptr (h a)))"
  using assms
  by (auto simp add: static_double_list_links_unlink_def static_double_list_links_linked_def
      static_double_list_links_clear_def set_next_def set_previous_def Let_def)

lemma unlink_unlinked:
  assumes "previous_ptr (h n) = None" and "next_ptr (h n) = None"
  shows "static_double_list_links_unlink n h = Inr h"
  using assms
  by (simp add: static_double_list_links_unlink_def static_double_list_links_linked_def)

lemma insert_after_pointwise:
  assumes "previous_ptr (h n) = None" and "next_ptr (h n) = None" and "next_ptr (h t) = Some s"
  shows "\<exists>h'. static_double_list_insert_after n (Some t) h = Inr h'
    \<and> (\<forall>a. next_ptr (h' a) = (if a = t then Some n else if a = n then Some s else next_ptr (h a)))
    \<and> (\<forall>a. previous_ptr (h' a) = (if a = s then Some n else if a = n then Some t else previous_ptr (h a)))"
proof -
  from assms have "n \<noteq> t" by auto
  with assms show ?thesis
    by (simp add: static_double_list_insert_after_def set_next_def set_previous_def Let_def)
qed

section \<open>Chains under update\<close>

lemma chain_frame:
  "\<forall>a \<in> set (p # xs). next_ptr (h' a) = next_ptr (h a) \<Longrightarrow>
   \<forall>a \<in> set (xs @ [q]). previous_ptr (h' a) = previous_ptr (h a) \<Longrightarrow>
   chain h' p xs q = chain h p xs q"
  by (induction xs arbitrary: p) auto

lemma chain_prev_in:
  "chain h p xs q \<Longrightarrow> n \<in> set xs \<Longrightarrow> \<exists>y \<in> set (p # xs). previous_ptr (h n) = Some y"
  by (induction xs arbitrary: p) auto

lemma chain_next_in:
  "chain h p xs q \<Longrightarrow> n \<in> set xs \<Longrightarrow> \<exists>y \<in> set (xs @ [q]). next_ptr (h n) = Some y"
proof (induction xs arbitrary: p)
  case Nil
  then show ?case by simp
next
  case (Cons x xs)
  show ?case
  proof (cases "n = x")
    case True
    with Cons.prems show ?thesis by (cases xs) auto
  next
    case False
    with Cons.prems have "n \<in> set xs" and "chain h x xs q" by auto
    from Cons.IH [OF this(2) this(1)] show ?thesis by auto
  qed
qed

lemma chain_ends:
  "chain h p xs q \<Longrightarrow> previous_ptr (h q) = Some (last (p # xs)) \<and> next_ptr (h (last (p # xs))) = Some q"
  by (induction xs arbitrary: p) auto

lemma chain_insert_tail:
  assumes "chain h p xs q" and "distinct (p # xs)" and "q \<notin> set xs"
    and "n \<notin> set (p # xs)" and "n \<noteq> q"
    and "\<forall>a. next_ptr (h' a) =
           (if a = last (p # xs) then Some n else if a = n then Some q else next_ptr (h a))"
    and "\<forall>a. previous_ptr (h' a) =
           (if a = q then Some n else if a = n then Some (last (p # xs)) else previous_ptr (h a))"
  shows "chain h' p (xs @ [n]) q"
  using assms
proof (induction xs arbitrary: p)
  case Nil
  then show ?case by simp
next
  case (Cons x xs)
  have "chain h' x (xs @ [n]) q"
    using Cons.prems by (intro Cons.IH) auto
  moreover have "next_ptr (h' p) = Some x"
    using Cons.prems by auto
  moreover have "previous_ptr (h' x) = Some p"
    using Cons.prems by auto
  ultimately show ?case by simp
qed

lemma chain_remove:
  assumes "chain h p xs q" and "distinct (p # xs)" and "q \<notin> set xs" and "n \<in> set xs"
    and "previous_ptr (h n) = Some pn" and "next_ptr (h n) = Some sn"
    and "\<forall>a. next_ptr (h' a) =
           (if a = n then None else if a = pn then Some sn else next_ptr (h a))"
    and "\<forall>a. previous_ptr (h' a) =
           (if a = n then None else if a = sn then Some pn else previous_ptr (h a))"
  shows "chain h' p (remove1 n xs) q"
  using assms
proof (induction xs arbitrary: p)
  case Nil
  then show ?case by simp
next
  case (Cons x xs)
  show ?case
  proof (cases "x = n")
    case True
    with Cons.prems have pn: "pn = p" by simp
    show ?thesis
    proof (cases xs)
      case Nil
      with True Cons.prems pn show ?thesis by auto
    next
      case (Cons y ys)
      with True Cons.prems(1,6) have sn: "sn = y" by simp
      have "chain h' y ys q = chain h y ys q"
        using Cons True Cons.prems pn sn by (intro chain_frame) auto
      with Cons True Cons.prems pn sn show ?thesis by auto
    qed
  next
    case False
    with Cons.prems have n_in: "n \<in> set xs" and ch: "chain h x xs q" by auto
    from chain_prev_in [OF ch n_in] Cons.prems(5) have "pn \<in> set (x # xs)" by auto
    with Cons.prems(2) have "p \<noteq> pn" by auto
    from chain_next_in [OF ch n_in] Cons.prems(6) have "sn \<in> set (xs @ [q])" by auto
    with Cons.prems(2,3) have "x \<noteq> sn" by auto
    have "chain h' x (remove1 n xs) q"
      using Cons.prems n_in ch by (intro Cons.IH) auto
    moreover have "next_ptr (h' p) = Some x"
      using Cons.prems \<open>p \<noteq> pn\<close> by auto
    moreover have "previous_ptr (h' x) = Some p"
      using Cons.prems \<open>x \<noteq> sn\<close> False by auto
    ultimately show ?thesis using False by simp
  qed
qed

lemma traverse_chain:
  "chain h p xs head \<Longrightarrow> head \<notin> set xs \<Longrightarrow>
   traverse head h (next_ptr (h p)) acc = Some (Inr (acc @ xs))"
proof (induction xs arbitrary: p acc)
  case Nil
  then show ?case
    by (subst traverse.simps) (simp add: static_double_list_end_def)
next
  case (Cons x xs)
  from Cons.prems have "traverse head h (next_ptr (h x)) (acc @ [x]) = Some (Inr ((acc @ [x]) @ xs))"
    by (intro Cons.IH) auto
  with Cons.prems show ?case
    by (subst traverse.simps) (auto simp add: static_double_list_end_def)
qed

section \<open>Linking appends, unlinking removes\<close>

lemma is_list_initialized:
  "is_list head h xs \<Longrightarrow> \<not> static_double_list_uninitialized head h"
  using chain_ends [of h head xs head]
  by (auto simp add: is_list_def static_double_list_uninitialized_def)

lemma clear_pointwise:
  "next_ptr (static_double_list_clear head h a) = (if a = head then Some head else next_ptr (h a))"
  "previous_ptr (static_double_list_clear head h a) = (if a = head then Some head else previous_ptr (h a))"
  by (simp_all add: static_double_list_clear_def set_next_def set_previous_def Let_def)

lemma is_list_clear: "is_list head (static_double_list_clear head h) []"
  by (simp add: is_list_def clear_pointwise)

lemma link_appends:
  assumes "is_list head h xs" and "n \<notin> set (head # xs)"
    and "previous_ptr (h n) = None" and "next_ptr (h n) = None"
  shows "\<exists>h'. static_double_list_link head n h = Inr h' \<and> is_list head h' (xs @ [n])
    \<and> (\<forall>a. a \<notin> set (head # xs @ [n]) \<longrightarrow>
          previous_ptr (h' a) = previous_ptr (h a) \<and> next_ptr (h' a) = next_ptr (h a))"
proof -
  let ?t = "last (head # xs)"
  from assms(1) have ch: "chain h head xs head" and dist: "distinct (head # xs)"
    by (simp_all add: is_list_def)
  from chain_ends [OF ch] have tl: "previous_ptr (h head) = Some ?t" and nx: "next_ptr (h ?t) = Some head"
    by simp_all
  from insert_after_pointwise [of h n ?t head, OF assms(3) assms(4) nx] obtain h' where
    ins: "static_double_list_insert_after n (Some ?t) h = Inr h'"
    and nxt: "\<forall>a. next_ptr (h' a) = (if a = ?t then Some n else if a = n then Some head else next_ptr (h a))"
    and prv: "\<forall>a. previous_ptr (h' a) = (if a = head then Some n else if a = n then Some ?t else previous_ptr (h a))"
    by blast
  have "static_double_list_link head n h = Inr h'"
    using is_list_initialized [OF assms(1)] tl ins
    by (simp add: static_double_list_link_def static_double_list_tail_def)
  moreover have "chain h' head (xs @ [n]) head"
    using ch dist assms(2) nxt prv by (intro chain_insert_tail [where h = h]) auto
  moreover have "?t \<in> set (head # xs)" by (rule last_in_set) simp
  ultimately show ?thesis
    using dist assms(2) nxt prv by (auto simp add: is_list_def)
qed

lemma link_uninitialized:
  "static_double_list_uninitialized head h \<Longrightarrow>
   static_double_list_link head n h = static_double_list_link head n (static_double_list_clear head h)"
  by (simp add: static_double_list_link_def static_double_list_uninitialized_def clear_pointwise)

lemma unlink_removes:
  assumes "is_list head h xs" and "n \<in> set xs"
  shows "\<exists>h'. static_double_list_links_unlink n h = Inr h' \<and> is_list head h' (remove1 n xs)
    \<and> previous_ptr (h' n) = None \<and> next_ptr (h' n) = None
    \<and> (\<forall>a. a \<notin> set (head # xs) \<longrightarrow>
          previous_ptr (h' a) = previous_ptr (h a) \<and> next_ptr (h' a) = next_ptr (h a))"
proof -
  from assms(1) have ch: "chain h head xs head" and dist: "distinct (head # xs)"
    by (simp_all add: is_list_def)
  from chain_prev_in [OF ch assms(2)] obtain pn where
    pn: "pn \<in> set (head # xs)" "previous_ptr (h n) = Some pn" by blast
  from chain_next_in [OF ch assms(2)] obtain sn where
    sn: "sn \<in> set (xs @ [head])" "next_ptr (h n) = Some sn" by blast
  from unlink_pointwise [of h n pn sn, OF pn(2) sn(2)] obtain h' where
    un: "static_double_list_links_unlink n h = Inr h'"
    and nxt: "\<forall>a. next_ptr (h' a) = (if a = n then None else if a = pn then Some sn else next_ptr (h a))"
    and prv: "\<forall>a. previous_ptr (h' a) = (if a = n then None else if a = sn then Some pn else previous_ptr (h a))"
    by blast
  have "chain h' head (remove1 n xs) head"
    using ch dist assms(2) pn(2) sn(2) nxt prv by (intro chain_remove [where h = h]) auto
  moreover have "distinct (head # remove1 n xs)"
    using dist by (auto dest: notin_set_remove1)
  ultimately show ?thesis
    using un nxt prv pn(1) sn(1) assms(2) by (auto simp add: is_list_def)
qed

lemma chain_linked:
  "chain h p xs q \<Longrightarrow> a \<in> set xs \<Longrightarrow> previous_ptr (h a) \<noteq> None \<and> next_ptr (h a) \<noteq> None"
  using chain_prev_in [of h p xs q a] chain_next_in [of h p xs q a] by auto

section \<open>The invariant of a list and its nodes\<close>

lemma list_inv_zero: "list_inv head zero_heap"
  by (simp add: list_inv_def zero_heap_def)

lemma list_inv_begin:
  assumes "list_inv head h"
  shows "list_inv head (snd (static_double_list_begin head h))"
proof -
  from assms consider
    (zero) "\<forall>a. previous_ptr (h a) = None \<and> next_ptr (h a) = None"
    | (list) xs where "is_list head h xs" "rest_unlinked head h xs"
    by (auto simp add: list_inv_def)
  then show ?thesis
  proof cases
    case zero
    then have "snd (static_double_list_begin head h) = static_double_list_clear head h"
      by (simp add: static_double_list_begin_def Let_def static_double_list_uninitialized_def)
    moreover have "rest_unlinked head (static_double_list_clear head h) []"
      using zero by (simp add: rest_unlinked_def clear_pointwise)
    ultimately show ?thesis
      using is_list_clear [of head h] by (auto simp add: list_inv_def)
  next
    case list
    then have "snd (static_double_list_begin head h) = h"
      using is_list_initialized [of head h xs] by (simp add: static_double_list_begin_def Let_def)
    with assms show ?thesis by simp
  qed
qed

lemma list_inv_link:
  assumes "list_inv head h" and "n \<noteq> head" and "static_double_list_link head n h = Inr h'"
  shows "list_inv head h'"
proof -
  from assms(1) consider
    (zero) "\<forall>a. previous_ptr (h a) = None \<and> next_ptr (h a) = None"
    | (list) xs where "is_list head h xs" "rest_unlinked head h xs"
    by (auto simp add: list_inv_def)
  then show ?thesis
  proof cases
    case zero
    let ?c = "static_double_list_clear head h"
    have lk: "static_double_list_link head n h = static_double_list_link head n ?c"
      using zero by (intro link_uninitialized) (simp add: static_double_list_uninitialized_def)
    have "\<exists>k. static_double_list_link head n ?c = Inr k \<and> is_list head k ([] @ [n])
       \<and> (\<forall>a. a \<notin> set (head # [] @ [n]) \<longrightarrow>
            previous_ptr (k a) = previous_ptr (?c a) \<and> next_ptr (k a) = next_ptr (?c a))"
      using zero assms(2) by (intro link_appends is_list_clear) (simp_all add: clear_pointwise)
    with lk assms(3) have "is_list head h' [n]" and "rest_unlinked head h' [n]"
      using zero by (auto simp add: rest_unlinked_def clear_pointwise)
    then show ?thesis by (auto simp add: list_inv_def)
  next
    case list
    have unl: "previous_ptr (h n) = None \<and> next_ptr (h n) = None"
      using assms(3) is_list_initialized [OF list(1)]
      by (auto simp add: static_double_list_link_def static_double_list_insert_after_def
          split: if_splits)
    have notin: "n \<notin> set xs"
      using unl chain_linked [of h head xs head n] list(1) by (auto simp add: is_list_def)
    have "\<exists>k. static_double_list_link head n h = Inr k \<and> is_list head k (xs @ [n])
       \<and> (\<forall>a. a \<notin> set (head # xs @ [n]) \<longrightarrow>
            previous_ptr (k a) = previous_ptr (h a) \<and> next_ptr (k a) = next_ptr (h a))"
      using list(1) assms(2) notin unl by (intro link_appends) simp_all
    with assms(3) have "is_list head h' (xs @ [n])" and "rest_unlinked head h' (xs @ [n])"
      using list(2) by (auto simp add: rest_unlinked_def)
    then show ?thesis by (auto simp add: list_inv_def)
  qed
qed

lemma list_inv_unlink:
  assumes "list_inv head h" and "n \<noteq> head" and "static_double_list_links_unlink n h = Inr h'"
  shows "list_inv head h'"
proof -
  from assms(1) consider
    (zero) "\<forall>a. previous_ptr (h a) = None \<and> next_ptr (h a) = None"
    | (list) xs where "is_list head h xs" "rest_unlinked head h xs"
    by (auto simp add: list_inv_def)
  then show ?thesis
  proof cases
    case zero
    then have "static_double_list_links_unlink n h = Inr h"
      by (intro unlink_unlinked) simp_all
    with assms show ?thesis by simp
  next
    case list
    show ?thesis
    proof (cases "n \<in> set xs")
      case True
      from unlink_removes [OF list(1) True] assms(3)
      have "is_list head h' (remove1 n xs)"
        and nul: "previous_ptr (h' n) = None \<and> next_ptr (h' n) = None"
        and fr: "\<forall>a. a \<notin> set (head # xs) \<longrightarrow>
          previous_ptr (h' a) = previous_ptr (h a) \<and> next_ptr (h' a) = next_ptr (h a)"
        by auto
      moreover have "rest_unlinked head h' (remove1 n xs)"
        unfolding rest_unlinked_def
      proof (intro allI impI)
        fix a assume a: "a \<notin> set (head # remove1 n xs)"
        show "previous_ptr (h' a) = None \<and> next_ptr (h' a) = None"
        proof (cases "a = n")
          case True
          with nul show ?thesis by simp
        next
          case False
          with a have "a \<notin> set (head # xs)" by auto
          with fr list(2) show ?thesis by (simp add: rest_unlinked_def)
        qed
      qed
      ultimately show ?thesis by (auto simp add: list_inv_def)
    next
      case False
      with assms(2) list(2) have "previous_ptr (h n) = None" "next_ptr (h n) = None"
        by (simp_all add: rest_unlinked_def)
      then have "static_double_list_links_unlink n h = Inr h" by (rule unlink_unlinked)
      with assms show ?thesis by simp
    qed
  qed
qed

lemma list_inv_step:
  assumes "list_inv head h" and "head \<notin> set (operand c)" and "c \<noteq> Clear"
    and "step head c h = Inr h'"
  shows "list_inv head h'"
proof (cases c)
  case (Link_tail n)
  with assms show ?thesis by (auto intro: list_inv_link [where n = n and h = h])
next
  case (Unlink n)
  with assms show ?thesis by (auto intro: list_inv_unlink [where n = n and h = h])
next
  case Begin
  with assms show ?thesis by (auto intro: list_inv_begin)
next
  case Is_empty
  with assms show ?thesis by (auto simp add: static_double_list_empty_def)
next
  case Clear
  with assms show ?thesis by simp
qed

lemma list_inv_run:
  "list_inv head h \<Longrightarrow> head \<notin> set (operands cs) \<Longrightarrow> Clear \<notin> set cs \<Longrightarrow>
   run head cs h = Inr h' \<Longrightarrow> list_inv head h'"
proof (induction cs arbitrary: h)
  case Nil
  then show ?case by simp
next
  case (Cons c cs)
  from Cons.prems(4) obtain h1 where st: "step head c h = Inr h1" and rn: "run head cs h1 = Inr h'"
    by (auto split: sum.splits)
  from Cons.prems(2) have "head \<notin> set (operand c)" and "head \<notin> set (operands cs)"
    by (simp_all add: operands_def)
  moreover from Cons.prems(3) have "c \<noteq> Clear" and "Clear \<notin> set cs" by auto
  ultimately show ?case
    using Cons.prems(1) st rn Cons.IH by (blast intro: list_inv_step)
qed

lemma linked_nodes_list:
  assumes "is_list head h xs" and "rest_unlinked head h xs"
  shows "linked_nodes head h = set xs"
proof (intro set_eqI iffI)
  fix a assume "a \<in> linked_nodes head h"
  then show "a \<in> set xs"
    using assms(2)
    by (auto simp add: linked_nodes_def rest_unlinked_def static_double_list_links_linked_def
        split: if_splits)
next
  fix a assume "a \<in> set xs"
  with assms(1) chain_linked [of h head xs head a] show "a \<in> linked_nodes head h"
    by (auto simp add: linked_nodes_def is_list_def static_double_list_links_linked_def)
qed

lemma iterate_list:
  assumes "is_list head h xs"
  shows "iterate head h = (Some (Inr xs), h)"
proof -
  from assms have "chain h head xs head" and "head \<notin> set xs" by (simp_all add: is_list_def)
  from traverse_chain [OF this, of "[]"] is_list_initialized [OF assms] show ?thesis
    by (simp add: iterate_def static_double_list_begin_def Let_def)
qed

lemma iterate_inv:
  assumes "list_inv head h"
  shows "\<exists>xs. fst (iterate head h) = Some (Inr xs) \<and> distinct xs \<and> set xs = linked_nodes head h"
proof -
  from assms consider
    (zero) "\<forall>a. previous_ptr (h a) = None \<and> next_ptr (h a) = None"
    | (list) xs where "is_list head h xs" "rest_unlinked head h xs"
    by (auto simp add: list_inv_def)
  then show ?thesis
  proof cases
    case zero
    then have "fst (iterate head h) = Some (Inr [])"
      by (simp add: iterate_def static_double_list_begin_def Let_def static_double_list_uninitialized_def
          clear_pointwise traverse.simps static_double_list_end_def)
    moreover have "linked_nodes head h = {}"
      using zero by (simp add: linked_nodes_def static_double_list_links_linked_def)
    ultimately show ?thesis by simp
  next
    case list
    with iterate_list [OF list(1)] linked_nodes_list [OF list] show ?thesis
      by (auto simp add: is_list_def)
  qed
qed

section \<open>Empty initial state\<close>

text \<open>
  C1, as stated, at the zero-initialised store: \<^verbatim>\<open>empty()\<close> answers true and hands the
  store back untouched, so the list is still uninitialised after the call; the claim has it
  initialised.
\<close>

theorem empty_leaves_uninitialized:
  "fst (static_double_list_empty 0 zero_heap) = True
   \<and> static_double_list_uninitialized 0 (snd (static_double_list_empty 0 zero_heap)) = True"
  by (simp add: static_double_list_empty_def static_double_list_uninitialized_def zero_heap_def)

text \<open>
  C1 (amended): for a list whose head is zero-initialised, \<^verbatim>\<open>uninitialized()\<close> returns
  true; the first call to \<^verbatim>\<open>begin()\<close> leaves the list initialised and empty
  (\<^verbatim>\<open>uninitialized()\<close> false, \<^verbatim>\<open>empty()\<close> true, the iterator equal to \<^verbatim>\<open>end()\<close>);
  a call to \<^verbatim>\<open>empty()\<close> returns true and changes nothing.
\<close>

theorem first_begin_initializes:
  assumes "previous_ptr (h head) = None" and "next_ptr (h head) = None"
  shows "static_double_list_uninitialized head h
    \<and> \<not> static_double_list_uninitialized head (snd (static_double_list_begin head h))
    \<and> fst (static_double_list_empty head (snd (static_double_list_begin head h)))
    \<and> fst (static_double_list_begin head h) = static_double_list_end head
    \<and> static_double_list_empty head h = (True, h)"
  using assms
  by (simp add: static_double_list_uninitialized_def static_double_list_begin_def
      static_double_list_empty_def static_double_list_clear_def static_double_list_end_def
      set_next_def set_previous_def)

theorem first_begin_initializes_witness:
  "static_double_list_uninitialized 0 zero_heap
    \<and> \<not> static_double_list_uninitialized 0 (snd (static_double_list_begin 0 zero_heap))
    \<and> fst (static_double_list_empty 0 (snd (static_double_list_begin 0 zero_heap)))
    \<and> fst (static_double_list_begin 0 zero_heap) = static_double_list_end 0
    \<and> static_double_list_empty 0 zero_heap = (True, zero_heap)"
  using first_begin_initializes [of zero_heap 0]
  by (simp add: zero_heap_def)

section \<open>Reachable stores\<close>

lemma list_inv_initially_empty: "initially_empty head h \<Longrightarrow> list_inv head h"
  unfolding initially_empty_def
proof (erule disjE)
  assume "h = zero_heap"
  then show ?thesis by (simp add: list_inv_zero)
next
  assume h: "h = static_double_list_clear head zero_heap"
  have "rest_unlinked head (static_double_list_clear head zero_heap) []"
    by (simp add: rest_unlinked_def clear_pointwise zero_heap_def)
  with h is_list_clear [of head zero_heap] show ?thesis
    by (auto simp add: list_inv_def)
qed

lemma run_append:
  "run head (as @ bs) h = (case run head as h of Inl e \<Rightarrow> Inl e | Inr h1 \<Rightarrow> run head bs h1)"
  by (induction as arbitrary: h) (auto split: sum.splits)

lemma run_take:
  assumes "run head cs h = Inr h'"
  shows "\<exists>hk. run head (take k cs) h = Inr hk"
proof -
  have "run head (take k cs @ drop k cs) h = Inr h'" using assms by simp
  then show ?thesis
    unfolding run_append by (auto split: sum.splits)
qed

lemma operands_take: "set (operands (take k cs)) \<subseteq> set (operands cs)"
  by (auto simp add: operands_def dest: in_set_takeD)

lemma link_on_empty:
  assumes "(previous_ptr (h head) = None \<and> next_ptr (h head) = None)
      \<or> (previous_ptr (h head) = Some head \<and> next_ptr (h head) = Some head)"
    and "n \<noteq> head" and "previous_ptr (h n) = None" and "next_ptr (h n) = None"
  shows "\<exists>h'. static_double_list_link head n h = Inr h' \<and> is_list head h' [n]
    \<and> (\<forall>a. a \<noteq> head \<longrightarrow> a \<noteq> n \<longrightarrow>
          previous_ptr (h' a) = previous_ptr (h a) \<and> next_ptr (h' a) = next_ptr (h a))"
  using assms(1)
proof (elim disjE)
  assume z: "previous_ptr (h head) = None \<and> next_ptr (h head) = None"
  define c where "c = static_double_list_clear head h"
  have u: "static_double_list_uninitialized head h"
    using z by (simp add: static_double_list_uninitialized_def)
  have lk: "static_double_list_link head n h = static_double_list_link head n c"
    unfolding c_def by (rule link_uninitialized [OF u])
  have lst: "is_list head c []" unfolding c_def by (rule is_list_clear)
  have pc: "previous_ptr (c n) = None" and nc: "next_ptr (c n) = None"
    using assms(2,3,4) by (simp_all add: c_def clear_pointwise)
  have notin: "n \<notin> set (head # [])" using assms(2) by simp
  from link_appends [OF lst notin pc nc] obtain k where
    k: "static_double_list_link head n c = Inr k" "is_list head k ([] @ [n])"
    and fr: "\<forall>a. a \<notin> set (head # [] @ [n]) \<longrightarrow>
            previous_ptr (k a) = previous_ptr (c a) \<and> next_ptr (k a) = next_ptr (c a)"
    by blast
  have "\<forall>a. a \<noteq> head \<longrightarrow> a \<noteq> n \<longrightarrow>
          previous_ptr (k a) = previous_ptr (h a) \<and> next_ptr (k a) = next_ptr (h a)"
    using fr by (simp add: c_def clear_pointwise)
  with lk k show ?thesis by simp
next
  assume s: "previous_ptr (h head) = Some head \<and> next_ptr (h head) = Some head"
  have lst: "is_list head h []" using s by (simp add: is_list_def)
  have notin: "n \<notin> set (head # [])" using assms(2) by simp
  from link_appends [OF lst notin assms(3) assms(4)] show ?thesis by auto
qed

section \<open>The invariant that clear keeps\<close>

lemma links_okI:
  assumes "\<And>a. (pv a = None) = (nx a = None)"
    and "\<And>a b. pv a = Some b \<Longrightarrow> pv b \<noteq> None"
    and "\<And>a b. nx a = Some b \<Longrightarrow> pv b \<noteq> None"
    and "\<And>a b. b \<noteq> head \<Longrightarrow> nx a = Some b \<Longrightarrow> pv b = Some a"
    and "\<And>a b. b \<noteq> head \<Longrightarrow> pv a = Some b \<Longrightarrow> nx b = Some a"
  shows "links_ok head pv nx"
  unfolding links_ok_def using assms by blast

lemma links_okD:
  assumes "links_ok head pv nx"
  shows "(pv a = None) = (nx a = None)"
    and "pv a = Some b \<Longrightarrow> pv b \<noteq> None"
    and "nx a = Some b \<Longrightarrow> pv b \<noteq> None"
    and "b \<noteq> head \<Longrightarrow> nx a = Some b \<Longrightarrow> pv b = Some a"
    and "b \<noteq> head \<Longrightarrow> pv a = Some b \<Longrightarrow> nx b = Some a"
  using assms unfolding links_ok_def by blast+

lemma links_ok_clear:
  assumes "links_ok head pv nx"
  shows "links_ok head (\<lambda>a. if a = head then Some head else pv a)
                       (\<lambda>a. if a = head then Some head else nx a)"
proof (rule links_okI)
  fix a
  show "((if a = head then Some head else pv a) = None) = ((if a = head then Some head else nx a) = None)"
    using links_okD(1) [OF assms, of a] by simp
next
  fix a b assume "(if a = head then Some head else pv a) = Some b"
  then show "(if b = head then Some head else pv b) \<noteq> None"
    using links_okD(2) [OF assms, of a b] by (simp split: if_splits)
next
  fix a b assume "(if a = head then Some head else nx a) = Some b"
  then show "(if b = head then Some head else pv b) \<noteq> None"
    using links_okD(3) [OF assms, of a b] by (simp split: if_splits)
next
  fix a b assume "b \<noteq> head" "(if a = head then Some head else nx a) = Some b"
  then show "(if b = head then Some head else pv b) = Some a"
    using links_okD(4) [OF assms, of b a] by (simp split: if_splits)
next
  fix a b assume "b \<noteq> head" "(if a = head then Some head else pv a) = Some b"
  then show "(if b = head then Some head else nx b) = Some a"
    using links_okD(5) [OF assms, of b a] by (simp split: if_splits)
qed

lemma links_ok_unlink:
  assumes ok: "links_ok head pv nx" and nh: "n \<noteq> head"
    and pn: "pv n = Some p" and sn: "nx n = Some s"
  shows "links_ok head (\<lambda>a. if a = n then None else if a = s then Some p else pv a)
                       (\<lambda>a. if a = n then None else if a = p then Some s else nx a)"
proof -
  have f2: "\<And>a. nx a = Some n \<Longrightarrow> a = p"
    using links_okD(4) [OF ok nh] pn by fastforce
  have f3: "\<And>a. pv a = Some n \<Longrightarrow> a = s"
    using links_okD(5) [OF ok nh] sn by fastforce
  have f1: "(p = n) = (s = n)"
    using f2 [of n] f3 [of n] pn sn by auto
  have f4: "a = n" if "s \<noteq> head" "nx a = Some s" for a
    using links_okD(4) [OF ok that(1) that(2)] links_okD(4) [OF ok that(1) sn] by simp
  have f5: "a = n" if "p \<noteq> head" "pv a = Some p" for a
    using links_okD(5) [OF ok that(1) that(2)] links_okD(5) [OF ok that(1) pn] by simp
  have f6: "pv p \<noteq> None" "pv s \<noteq> None"
    using links_okD(2) [OF ok pn] links_okD(3) [OF ok sn] by simp_all
  have f7: "nx p \<noteq> None" "nx s \<noteq> None"
    using f6 links_okD(1) [OF ok] by simp_all
  show ?thesis
  proof (rule links_okI)
    fix a
    show "((if a = n then None else if a = s then Some p else pv a) = None)
        = ((if a = n then None else if a = p then Some s else nx a) = None)"
      using links_okD(1) [OF ok, of a] f6 f7 by auto
  next
    fix a b assume "(if a = n then None else if a = s then Some p else pv a) = Some b"
    then have "a \<noteq> n" and c: "(a = s \<and> b = p) \<or> (a \<noteq> s \<and> pv a = Some b)"
      by (auto split: if_splits)
    from c show "(if b = n then None else if b = s then Some p else pv b) \<noteq> None"
    proof
      assume "a = s \<and> b = p"
      with \<open>a \<noteq> n\<close> f1 f6 show ?thesis by auto
    next
      assume "a \<noteq> s \<and> pv a = Some b"
      with f3 [of a] links_okD(2) [OF ok, of a b] show ?thesis by auto
    qed
  next
    fix a b assume "(if a = n then None else if a = p then Some s else nx a) = Some b"
    then have "a \<noteq> n" and c: "(a = p \<and> b = s) \<or> (a \<noteq> p \<and> nx a = Some b)"
      by (auto split: if_splits)
    from c show "(if b = n then None else if b = s then Some p else pv b) \<noteq> None"
    proof
      assume "a = p \<and> b = s"
      with \<open>a \<noteq> n\<close> f1 show ?thesis by auto
    next
      assume "a \<noteq> p \<and> nx a = Some b"
      with f2 [of a] links_okD(3) [OF ok, of a b] show ?thesis by auto
    qed
  next
    fix a b assume bh: "b \<noteq> head"
      and "(if a = n then None else if a = p then Some s else nx a) = Some b"
    then have "a \<noteq> n" and c: "(a = p \<and> b = s) \<or> (a \<noteq> p \<and> nx a = Some b)"
      by (auto split: if_splits)
    from c show "(if b = n then None else if b = s then Some p else pv b) = Some a"
    proof
      assume "a = p \<and> b = s"
      with \<open>a \<noteq> n\<close> f1 show ?thesis by auto
    next
      assume d: "a \<noteq> p \<and> nx a = Some b"
      with f2 [of a] have "b \<noteq> n" by auto
      moreover from d f4 [of a] bh \<open>a \<noteq> n\<close> have "b \<noteq> s" by auto
      moreover from d links_okD(4) [OF ok bh] have "pv b = Some a" by simp
      ultimately show ?thesis by simp
    qed
  next
    fix a b assume bh: "b \<noteq> head"
      and "(if a = n then None else if a = s then Some p else pv a) = Some b"
    then have "a \<noteq> n" and c: "(a = s \<and> b = p) \<or> (a \<noteq> s \<and> pv a = Some b)"
      by (auto split: if_splits)
    from c show "(if b = n then None else if b = p then Some s else nx b) = Some a"
    proof
      assume "a = s \<and> b = p"
      with \<open>a \<noteq> n\<close> f1 show ?thesis by auto
    next
      assume d: "a \<noteq> s \<and> pv a = Some b"
      with f3 [of a] have "b \<noteq> n" by auto
      moreover from d f5 [of a] bh \<open>a \<noteq> n\<close> have "b \<noteq> p" by auto
      moreover from d links_okD(5) [OF ok bh] have "nx b = Some a" by simp
      ultimately show ?thesis by simp
    qed
  qed
qed

lemma links_ok_insert:
  assumes ok: "links_ok head pv nx" and nh: "n \<noteq> head"
    and pn: "pv n = None" and nn: "nx n = None"
    and tl: "pv head = Some t" and st: "nx t = Some s"
  shows "links_ok head (\<lambda>a. if a = s then Some n else if a = n then Some t else pv a)
                       (\<lambda>a. if a = t then Some n else if a = n then Some s else nx a)"
proof -
  have g0: "pv s \<noteq> None" "pv t \<noteq> None"
    using links_okD(3) [OF ok st] links_okD(2) [OF ok tl] by simp_all
  have g0': "nx s \<noteq> None"
    using g0 links_okD(1) [OF ok] by simp
  have g1: "t \<noteq> n" "s \<noteq> n"
    using g0 pn by auto
  have g2: "\<And>a. pv a \<noteq> Some n" "\<And>a. nx a \<noteq> Some n"
    using links_okD(2) [OF ok, of _ n] links_okD(3) [OF ok, of _ n] pn by auto
  have g4: "a = t" if "s \<noteq> head" "nx a = Some s" for a
    using links_okD(4) [OF ok that(1) that(2)] links_okD(4) [OF ok that(1) st] by simp
  have g5: "a = s" if "t \<noteq> head" "pv a = Some t" for a
    using links_okD(5) [OF ok that(1) that(2)] st by simp
  show ?thesis
  proof (rule links_okI)
    fix a
    show "((if a = s then Some n else if a = n then Some t else pv a) = None)
        = ((if a = t then Some n else if a = n then Some s else nx a) = None)"
      using links_okD(1) [OF ok, of a] g0 g0' by auto
  next
    fix a b assume "(if a = s then Some n else if a = n then Some t else pv a) = Some b"
    then have "b = n \<or> b = t \<or> pv a = Some b" by (auto split: if_splits)
    then show "(if b = s then Some n else if b = n then Some t else pv b) \<noteq> None"
      using g0 links_okD(2) [OF ok, of a b] by auto
  next
    fix a b assume "(if a = t then Some n else if a = n then Some s else nx a) = Some b"
    then have "b = n \<or> b = s \<or> nx a = Some b" by (auto split: if_splits)
    then show "(if b = s then Some n else if b = n then Some t else pv b) \<noteq> None"
      using g0 links_okD(3) [OF ok, of a b] by auto
  next
    fix a b assume bh: "b \<noteq> head"
      and "(if a = t then Some n else if a = n then Some s else nx a) = Some b"
    then have c: "(a = t \<and> b = n) \<or> (a \<noteq> t \<and> a = n \<and> b = s) \<or> (a \<noteq> t \<and> a \<noteq> n \<and> nx a = Some b)"
      by (auto split: if_splits)
    then show "(if b = s then Some n else if b = n then Some t else pv b) = Some a"
    proof (elim disjE)
      assume "a = t \<and> b = n" with g1 show ?thesis by auto
    next
      assume "a \<noteq> t \<and> a = n \<and> b = s" then show ?thesis by auto
    next
      assume d: "a \<noteq> t \<and> a \<noteq> n \<and> nx a = Some b"
      with g2(2) [of a] have "b \<noteq> n" by auto
      moreover from d g4 [of a] bh have "b \<noteq> s" by auto
      moreover from d links_okD(4) [OF ok bh] have "pv b = Some a" by simp
      ultimately show ?thesis by simp
    qed
  next
    fix a b assume bh: "b \<noteq> head"
      and "(if a = s then Some n else if a = n then Some t else pv a) = Some b"
    then have c: "(a = s \<and> b = n) \<or> (a \<noteq> s \<and> a = n \<and> b = t) \<or> (a \<noteq> s \<and> a \<noteq> n \<and> pv a = Some b)"
      by (auto split: if_splits)
    then show "(if b = t then Some n else if b = n then Some s else nx b) = Some a"
    proof (elim disjE)
      assume "a = s \<and> b = n" with g1 show ?thesis by auto
    next
      assume "a \<noteq> s \<and> a = n \<and> b = t" then show ?thesis by auto
    next
      assume d: "a \<noteq> s \<and> a \<noteq> n \<and> pv a = Some b"
      with g2(1) [of a] have "b \<noteq> n" by auto
      moreover from d g5 [of a] bh have "b \<noteq> t" by auto
      moreover from d links_okD(5) [OF ok bh] have "nx b = Some a" by simp
      ultimately show ?thesis by simp
    qed
  qed
qed

lemma links_inv_initially_empty: "initially_empty head h \<Longrightarrow> links_inv head h"
  unfolding initially_empty_def
proof (erule disjE)
  assume "h = zero_heap"
  then show ?thesis by (simp add: links_inv_def links_ok_def zero_heap_def)
next
  assume "h = static_double_list_clear head zero_heap"
  then show ?thesis by (simp add: links_inv_def links_ok_def clear_pointwise zero_heap_def)
qed

lemma links_inv_clear:
  assumes "links_inv head h"
  shows "links_inv head (static_double_list_clear head h)"
  using links_ok_clear [OF assms [unfolded links_inv_def]]
  by (simp add: links_inv_def clear_pointwise)

lemma links_inv_begin:
  assumes "links_inv head h"
  shows "links_inv head (snd (static_double_list_begin head h))"
  using assms links_inv_clear [OF assms]
  by (simp add: static_double_list_begin_def Let_def)

lemma links_inv_no_half:
  "links_inv head h \<Longrightarrow> (previous_ptr (h a) = None) = (next_ptr (h a) = None)"
  by (simp add: links_inv_def links_ok_def)

lemma links_inv_unlink:
  assumes "links_inv head h" and "n \<noteq> head"
  shows "\<exists>h'. static_double_list_links_unlink n h = Inr h' \<and> links_inv head h'"
proof (cases "previous_ptr (h n)")
  case None
  with links_inv_no_half [OF assms(1), of n] have "next_ptr (h n) = None" by simp
  with None have "static_double_list_links_unlink n h = Inr h" by (intro unlink_unlinked)
  with assms(1) show ?thesis by simp
next
  case (Some p)
  with links_inv_no_half [OF assms(1), of n] obtain s where s: "next_ptr (h n) = Some s" by auto
  from unlink_pointwise [of h n p s, OF Some s] obtain h' where
    un: "static_double_list_links_unlink n h = Inr h'"
    and nxt: "\<forall>a. next_ptr (h' a) = (if a = n then None else if a = p then Some s else next_ptr (h a))"
    and prv: "\<forall>a. previous_ptr (h' a) = (if a = n then None else if a = s then Some p else previous_ptr (h a))"
    by blast
  from links_ok_unlink [OF assms(1) [unfolded links_inv_def] assms(2) Some s] nxt prv
  have "links_inv head h'" by (simp add: links_inv_def)
  with un show ?thesis by blast
qed

lemma links_inv_link:
  assumes "links_inv head h" and "n \<noteq> head"
    and "previous_ptr (h n) = None" and "next_ptr (h n) = None"
  shows "\<exists>h'. static_double_list_link head n h = Inr h' \<and> links_inv head h'"
proof -
  define c where "c = snd (static_double_list_begin head h)"
  have c: "c = (if static_double_list_uninitialized head h
                then static_double_list_clear head h else h)"
    by (simp add: c_def static_double_list_begin_def Let_def)
  have inv: "links_inv head c" unfolding c_def by (rule links_inv_begin [OF assms(1)])
  have lk: "static_double_list_link head n h = static_double_list_insert_after n (previous_ptr (c head)) c"
    by (simp add: c static_double_list_link_def static_double_list_tail_def Let_def)
  have pn: "previous_ptr (c n) = None" and nn: "next_ptr (c n) = None"
    using assms(2,3,4) by (simp_all add: c clear_pointwise)
  have "previous_ptr (c head) \<noteq> None"
    using links_inv_no_half [OF assms(1), of head]
    by (auto simp add: c clear_pointwise static_double_list_uninitialized_def)
  then obtain t where t: "previous_ptr (c head) = Some t" by auto
  from links_okD(2) [OF inv [unfolded links_inv_def] t] links_inv_no_half [OF inv, of t]
  obtain s where s: "next_ptr (c t) = Some s" by auto
  from insert_after_pointwise [of c n t s, OF pn nn s] obtain h' where
    ins: "static_double_list_insert_after n (Some t) c = Inr h'"
    and nxt: "\<forall>a. next_ptr (h' a) = (if a = t then Some n else if a = n then Some s else next_ptr (c a))"
    and prv: "\<forall>a. previous_ptr (h' a) = (if a = s then Some n else if a = n then Some t else previous_ptr (c a))"
    by blast
  from links_ok_insert [OF inv [unfolded links_inv_def] assms(2) pn nn t s] nxt prv
  have "links_inv head h'" by (simp add: links_inv_def)
  with lk t ins show ?thesis by simp
qed

lemma link_linked_fails:
  assumes "previous_ptr (h node) \<noteq> None \<or> next_ptr (h node) \<noteq> None"
  shows "static_double_list_insert_after node after h = Inl AssertionFailure"
    and "static_double_list_link head node h = Inl AssertionFailure"
  using assms
  by (auto simp add: static_double_list_insert_after_def static_double_list_link_def
      static_double_list_uninitialized_def clear_pointwise Let_def)

lemma links_inv_step:
  assumes "links_inv head h" and "head \<notin> set (operand c)" and "step head c h = Inr h'"
  shows "links_inv head h'"
proof (cases c)
  case (Link_tail n)
  with assms(3) have lk: "static_double_list_link head n h = Inr h'" by simp
  have "\<not> (previous_ptr (h n) \<noteq> None \<or> next_ptr (h n) \<noteq> None)"
  proof
    assume "previous_ptr (h n) \<noteq> None \<or> next_ptr (h n) \<noteq> None"
    from link_linked_fails(2) [of h n head, OF this] lk show False by simp
  qed
  then have "previous_ptr (h n) = None" and "next_ptr (h n) = None" by simp_all
  with links_inv_link [OF assms(1), of n] Link_tail assms(2) lk show ?thesis by auto
next
  case (Unlink n)
  with links_inv_unlink [OF assms(1), of n] assms(2,3) show ?thesis by auto
next
  case Begin
  with assms links_inv_begin [OF assms(1)] show ?thesis by auto
next
  case Is_empty
  with assms show ?thesis by (auto simp add: static_double_list_empty_def)
next
  case Clear
  with assms links_inv_clear [OF assms(1)] show ?thesis by auto
qed

lemma links_inv_run:
  "links_inv head h \<Longrightarrow> head \<notin> set (operands cs) \<Longrightarrow> run head cs h = Inr h' \<Longrightarrow>
   links_inv head h'"
proof (induction cs arbitrary: h)
  case Nil
  then show ?case by simp
next
  case (Cons c cs)
  from Cons.prems(3) obtain h1 where st: "step head c h = Inr h1" and rn: "run head cs h1 = Inr h'"
    by (auto split: sum.splits)
  from Cons.prems(2) have "head \<notin> set (operand c)" and "head \<notin> set (operands cs)"
    by (simp_all add: operands_def)
  with Cons.prems(1) st rn Cons.IH show ?case
    by (blast intro: links_inv_step)
qed

text \<open>The definitions a concrete run unfolds.\<close>

lemmas model_defs =
  static_double_list_link_def static_double_list_insert_after_def
  static_double_list_links_unlink_def static_double_list_links_linked_def
  static_double_list_links_clear_def static_double_list_uninitialized_def
  static_double_list_clear_def static_double_list_tail_def static_double_list_begin_def
  static_double_list_empty_def static_double_list_end_def
  set_next_def set_previous_def zero_heap_def Let_def

section \<open>Order of iteration\<close>

text \<open>
  C2: on an empty list (head still zero-initialised, or initialised and pointing to itself),
  for three distinct unlinked nodes \<open>a\<close>, \<open>b\<close>, \<open>c\<close> other than the head, the
  three calls \<^verbatim>\<open>link (a)\<close>, \<^verbatim>\<open>link (b)\<close>, \<^verbatim>\<open>link (c)\<close> succeed, and the iteration
  from \<^verbatim>\<open>begin()\<close> to \<^verbatim>\<open>end()\<close> then ends and visits exactly \<open>a\<close>, \<open>b\<close>, \<open>c\<close>
  in this order.
\<close>

theorem link_tail_order:
  assumes "(previous_ptr (h head) = None \<and> next_ptr (h head) = None)
      \<or> (previous_ptr (h head) = Some head \<and> next_ptr (h head) = Some head)"
    and "distinct [head, a, b, c]"
    and "previous_ptr (h a) = None \<and> next_ptr (h a) = None"
    and "previous_ptr (h b) = None \<and> next_ptr (h b) = None"
    and "previous_ptr (h c) = None \<and> next_ptr (h c) = None"
  shows "\<exists>h1 h2 h3. static_double_list_link head a h = Inr h1
    \<and> static_double_list_link head b h1 = Inr h2
    \<and> static_double_list_link head c h2 = Inr h3
    \<and> fst (iterate head h3) = Some (Inr [a, b, c])"
proof -
  from assms(2) have ne: "a \<noteq> head" "b \<noteq> head" "c \<noteq> head" "a \<noteq> b" "a \<noteq> c" "b \<noteq> c"
    by auto
  from assms(3) have pa: "previous_ptr (h a) = None" and na: "next_ptr (h a) = None" by simp_all
  from link_on_empty [OF assms(1) ne(1) pa na] obtain h1 where
    h1: "static_double_list_link head a h = Inr h1" "is_list head h1 [a]"
    and f1: "\<forall>x. x \<noteq> head \<longrightarrow> x \<noteq> a \<longrightarrow>
          previous_ptr (h1 x) = previous_ptr (h x) \<and> next_ptr (h1 x) = next_ptr (h x)"
    by blast
  have pb: "previous_ptr (h1 b) = None" and nb: "next_ptr (h1 b) = None"
    using f1 ne assms(4) by simp_all
  have pc1: "previous_ptr (h1 c) = None" and nc1: "next_ptr (h1 c) = None"
    using f1 ne assms(5) by simp_all
  have nib: "b \<notin> set (head # [a])" using ne by simp
  from link_appends [OF h1(2) nib pb nb] obtain h2 where
    h2: "static_double_list_link head b h1 = Inr h2" "is_list head h2 ([a] @ [b])"
    and f2: "\<forall>x. x \<notin> set (head # [a] @ [b]) \<longrightarrow>
          previous_ptr (h2 x) = previous_ptr (h1 x) \<and> next_ptr (h2 x) = next_ptr (h1 x)"
    by blast
  have pc: "previous_ptr (h2 c) = None" and nc: "next_ptr (h2 c) = None"
    using f2 ne pc1 nc1 by simp_all
  have nic: "c \<notin> set (head # [a] @ [b])" using ne by simp
  from link_appends [OF h2(2) nic pc nc] obtain h3 where
    h3: "static_double_list_link head c h2 = Inr h3" "is_list head h3 (([a] @ [b]) @ [c])"
    by blast
  from h3(2) have "is_list head h3 [a, b, c]" by simp
  from iterate_list [OF this] have "fst (iterate head h3) = Some (Inr [a, b, c])" by simp
  with h1(1) h2(1) h3(1) show ?thesis by blast
qed

theorem link_tail_order_witness:
  "((previous_ptr (zero_heap 0) = None \<and> next_ptr (zero_heap 0) = None)
      \<or> (previous_ptr (zero_heap 0) = Some 0 \<and> next_ptr (zero_heap 0) = Some 0))
   \<and> distinct [0, 1, 2, 3::nat]
   \<and> (previous_ptr (zero_heap 1) = None \<and> next_ptr (zero_heap 1) = None)
   \<and> (previous_ptr (zero_heap 2) = None \<and> next_ptr (zero_heap 2) = None)
   \<and> (previous_ptr (zero_heap 3) = None \<and> next_ptr (zero_heap 3) = None)
   \<and> (\<exists>h1 h2 h3. static_double_list_link 0 1 zero_heap = Inr h1
        \<and> static_double_list_link 0 2 h1 = Inr h2
        \<and> static_double_list_link 0 3 h2 = Inr h3
        \<and> fst (iterate 0 h3) = Some (Inr [1, 2, 3]))"
proof -
  have e: "(previous_ptr (zero_heap 0) = None \<and> next_ptr (zero_heap 0) = None)
      \<or> (previous_ptr (zero_heap 0) = Some 0 \<and> next_ptr (zero_heap 0) = Some 0)"
    by (simp add: zero_heap_def)
  have d: "distinct [0, 1, 2, 3::nat]" by simp
  have n: "previous_ptr (zero_heap 1) = None \<and> next_ptr (zero_heap 1) = None"
    "previous_ptr (zero_heap 2) = None \<and> next_ptr (zero_heap 2) = None"
    "previous_ptr (zero_heap 3) = None \<and> next_ptr (zero_heap 3) = None"
    by (simp_all add: zero_heap_def)
  from link_tail_order [OF e d n] e d n show ?thesis by blast
qed

section \<open>Iteration and the linked nodes\<close>

text \<open>
  C6: start from an empty list and make any finite sequence of \<^verbatim>\<open>link\<close> and
  \<^verbatim>\<open>unlink\<close> calls on nodes other than the head (calls of \<^verbatim>\<open>begin\<close> and \<^verbatim>\<open>empty\<close>
  may be mixed in, calls of \<^verbatim>\<open>clear\<close> may not) that runs without a failed assertion. After each of the calls (after the
  first \<open>k\<close>, for every \<open>k\<close>), the iteration from \<^verbatim>\<open>begin()\<close> to \<^verbatim>\<open>end()\<close> ends, and
  the number of nodes it visits is the number of nodes for which \<^verbatim>\<open>linked()\<close> is true.
\<close>

theorem iteration_counts_linked:
  assumes "initially_empty head h0" and "head \<notin> set (operands cs)" and "Clear \<notin> set cs"
    and "run head cs h0 = Inr h" and "k \<le> length cs"
  shows "\<exists>hk xs. run head (take k cs) h0 = Inr hk
    \<and> fst (iterate head hk) = Some (Inr xs)
    \<and> length xs = card (linked_nodes head hk)"
proof -
  from run_take [OF assms(4)] obtain hk where hk: "run head (take k cs) h0 = Inr hk" by blast
  from assms(2) operands_take [of k cs] have "head \<notin> set (operands (take k cs))" by blast
  moreover from assms(3) have "Clear \<notin> set (take k cs)" by (auto dest: in_set_takeD)
  ultimately have "list_inv head hk"
    using list_inv_initially_empty [OF assms(1)] hk by (blast intro: list_inv_run)
  from iterate_inv [OF this] obtain xs where
    "fst (iterate head hk) = Some (Inr xs)" "distinct xs" "set xs = linked_nodes head hk" by blast
  with hk distinct_card [of xs] show ?thesis by auto
qed

theorem iteration_counts_linked_witness:
  "initially_empty 0 zero_heap
   \<and> 0 \<notin> set (operands [Link_tail 1, Link_tail 2, Unlink 1])
   \<and> Clear \<notin> set [Link_tail 1, Link_tail 2, Unlink 1]
   \<and> (\<exists>h. run 0 [Link_tail 1, Link_tail 2, Unlink 1] zero_heap = Inr h)
   \<and> fst (iterate 0 (projr (run 0 [Link_tail 1, Link_tail 2, Unlink 1] zero_heap))) = Some (Inr [2])
   \<and> card (linked_nodes 0 (projr (run 0 [Link_tail 1, Link_tail 2, Unlink 1] zero_heap))) = 1"
proof -
  let ?cs = "[Link_tail 1, Link_tail 2, Unlink 1]"
  let ?h = "projr (run 0 ?cs zero_heap)"
  have a: "initially_empty 0 zero_heap" by (simp add: initially_empty_def)
  have b: "0 \<notin> set (operands ?cs)" by (simp add: operands_def)
  have c: "run 0 ?cs zero_heap = Inr ?h" by (simp add: model_defs)
  have d: "fst (iterate 0 ?h) = Some (Inr [2])"
    by (simp add: model_defs iterate_def traverse.simps)
  have e: "Clear \<notin> set ?cs" by simp
  from iteration_counts_linked [OF a b e c, of 3] c d
  have "card (linked_nodes 0 ?h) = 1" by auto
  with a b c d e show ?thesis by blast
qed

section \<open>No half-linked node\<close>

text \<open>
  C9: in every store reached from an empty list by calls of \<^verbatim>\<open>link\<close>, \<^verbatim>\<open>unlink\<close>,
  \<^verbatim>\<open>begin\<close>, \<^verbatim>\<open>empty\<close> and \<^verbatim>\<open>clear\<close> on nodes other than the head, every node (the head
  included) has both pointers null or both non-null; so \<^verbatim>\<open>linked()\<close> never fails its
  assertions there, and it returns false exactly when both pointers are null.
\<close>

theorem no_half_linked_node:
  assumes "initially_empty head h0" and "head \<notin> set (operands cs)"
    and "run head cs h0 = Inr h"
  shows "((previous_ptr (h a) = None) = (next_ptr (h a) = None))
    \<and> (\<exists>b. static_double_list_links_linked a h = Inr b)
    \<and> ((static_double_list_links_linked a h = Inr False)
         = (previous_ptr (h a) = None \<and> next_ptr (h a) = None))"
proof -
  from links_inv_initially_empty [OF assms(1)] assms(2,3) have "links_inv head h"
    by (blast intro: links_inv_run)
  from links_inv_no_half [OF this, of a] show ?thesis
    by (auto simp add: static_double_list_links_linked_def)
qed

theorem no_half_linked_node_witness:
  "initially_empty 0 zero_heap
   \<and> 0 \<notin> set (operands [Link_tail 1, Link_tail 2, Clear, Link_tail 3, Unlink 1])
   \<and> (\<exists>h. run 0 [Link_tail 1, Link_tail 2, Clear, Link_tail 3, Unlink 1] zero_heap = Inr h)
   \<and> ((previous_ptr (projr (run 0 [Link_tail 1, Link_tail 2, Clear, Link_tail 3, Unlink 1] zero_heap) 2) = None)
        = (next_ptr (projr (run 0 [Link_tail 1, Link_tail 2, Clear, Link_tail 3, Unlink 1] zero_heap) 2) = None))
   \<and> (\<exists>b. static_double_list_links_linked 2
          (projr (run 0 [Link_tail 1, Link_tail 2, Clear, Link_tail 3, Unlink 1] zero_heap)) = Inr b)"
proof -
  let ?cs = "[Link_tail 1, Link_tail 2, Clear, Link_tail 3, Unlink 1]"
  let ?h = "projr (run 0 ?cs zero_heap)"
  have a: "initially_empty 0 zero_heap" by (simp add: initially_empty_def)
  have b: "0 \<notin> set (operands ?cs)" by (simp add: operands_def)
  have c: "run 0 ?cs zero_heap = Inr ?h" by (simp add: model_defs)
  from no_half_linked_node [OF a b c, of 2] a b c show ?thesis by blast
qed

section \<open>Unlinking twice\<close>

text \<open>
  C3: in every store reached from an empty list by calls of \<^verbatim>\<open>link\<close>, \<^verbatim>\<open>unlink\<close>,
  \<^verbatim>\<open>begin\<close>, \<^verbatim>\<open>empty\<close> and \<^verbatim>\<open>clear\<close> on nodes other than the head,
  \<^verbatim>\<open>unlink()\<close> on any node succeeds, a second \<^verbatim>\<open>unlink()\<close> on the same node succeeds and leaves the store
  of the first exactly as it is, and \<^verbatim>\<open>unlink()\<close> on a node whose pointers are both
  null changes nothing.
\<close>

theorem unlink_twice:
  assumes "initially_empty head h0" and "head \<notin> set (operands cs)"
    and "run head cs h0 = Inr h"
  shows "\<exists>h'. static_double_list_links_unlink n h = Inr h'
    \<and> static_double_list_links_unlink n h' = Inr h'
    \<and> (previous_ptr (h n) = None \<and> next_ptr (h n) = None \<longrightarrow> h' = h)"
proof -
  from links_inv_initially_empty [OF assms(1)] assms(2,3) have "links_inv head h"
    by (blast intro: links_inv_run)
  from links_inv_no_half [OF this, of n] show ?thesis
  proof (cases "previous_ptr (h n)")
    case None
    with \<open>(previous_ptr (h n) = None) = (next_ptr (h n) = None)\<close>
    have "static_double_list_links_unlink n h = Inr h" by (intro unlink_unlinked) simp_all
    then show ?thesis by simp
  next
    case (Some p)
    with \<open>(previous_ptr (h n) = None) = (next_ptr (h n) = None)\<close>
    obtain s where s: "next_ptr (h n) = Some s" by auto
    from unlink_pointwise [of h n p s, OF Some s] obtain h' where
      "static_double_list_links_unlink n h = Inr h'"
      "previous_ptr (h' n) = None" "next_ptr (h' n) = None" by auto
    with unlink_unlinked [of h' n] Some show ?thesis by auto
  qed
qed

theorem unlink_twice_witness:
  "initially_empty 0 zero_heap
   \<and> 0 \<notin> set (operands [Link_tail 1, Link_tail 2])
   \<and> (\<exists>h. run 0 [Link_tail 1, Link_tail 2] zero_heap = Inr h)
   \<and> (\<exists>h'. static_double_list_links_unlink 1 (projr (run 0 [Link_tail 1, Link_tail 2] zero_heap)) = Inr h'
        \<and> static_double_list_links_unlink 1 h' = Inr h')"
proof -
  let ?cs = "[Link_tail 1, Link_tail 2]"
  let ?h = "projr (run 0 ?cs zero_heap)"
  have a: "initially_empty 0 zero_heap" by (simp add: initially_empty_def)
  have b: "0 \<notin> set (operands ?cs)" by (simp add: operands_def)
  have c: "run 0 ?cs zero_heap = Inr ?h" by (simp add: model_defs)
  from unlink_twice [OF a b c, of 1] a b c show ?thesis by blast
qed

section \<open>What unlink does to the neighbours\<close>

text \<open>
  C4, as stated, at a node whose two pointers refer to the node itself (the state
  \<^verbatim>\<open>static_double_list::clear\<close> gives the head): both pointers are non-null, so
  \<^verbatim>\<open>unlink()\<close> takes the splicing path; the predecessor and the successor are the node
  itself, and after the final \<^verbatim>\<open>clear()\<close> they are null, not pointing at each other.
\<close>

theorem unlink_self_linked:
  "previous_ptr (static_double_list_clear 0 zero_heap 0) = Some 0
   \<and> next_ptr (static_double_list_clear 0 zero_heap 0) = Some 0
   \<and> static_double_list_links_unlink 0 (static_double_list_clear 0 zero_heap) = Inr zero_heap
   \<and> next_ptr (zero_heap 0) \<noteq> Some 0
   \<and> previous_ptr (zero_heap 0) \<noteq> Some 0"
  by (simp add: model_defs fun_eq_iff)

text \<open>
  C4 (amended): for every node with both pointers non-null, \<^verbatim>\<open>unlink()\<close> succeeds;
  afterwards the former predecessor, when it is another node, points forward to the former
  successor, and the former successor, when it is another node, points back to the former
  predecessor; both pointers of the node are null and \<^verbatim>\<open>linked()\<close> on it returns
  false.
\<close>

theorem unlink_splices:
  assumes "previous_ptr (h n) = Some p" and "next_ptr (h n) = Some s"
  shows "\<exists>h'. static_double_list_links_unlink n h = Inr h'
    \<and> (p \<noteq> n \<longrightarrow> next_ptr (h' p) = Some s)
    \<and> (s \<noteq> n \<longrightarrow> previous_ptr (h' s) = Some p)
    \<and> previous_ptr (h' n) = None \<and> next_ptr (h' n) = None
    \<and> static_double_list_links_linked n h' = Inr False"
proof -
  from unlink_pointwise [of h n p s, OF assms] obtain h' where
    "static_double_list_links_unlink n h = Inr h'"
    and "\<forall>a. next_ptr (h' a) = (if a = n then None else if a = p then Some s else next_ptr (h a))"
    and "\<forall>a. previous_ptr (h' a) = (if a = n then None else if a = s then Some p else previous_ptr (h a))"
    by blast
  then show ?thesis
    by (auto simp add: static_double_list_links_linked_def)
qed

theorem unlink_splices_witness:
  "previous_ptr (projr (run 0 [Link_tail 1, Link_tail 2, Link_tail 3] zero_heap) 2) = Some 1
   \<and> next_ptr (projr (run 0 [Link_tail 1, Link_tail 2, Link_tail 3] zero_heap) 2) = Some 3
   \<and> (\<exists>h'. static_double_list_links_unlink 2
          (projr (run 0 [Link_tail 1, Link_tail 2, Link_tail 3] zero_heap)) = Inr h'
        \<and> next_ptr (h' 1) = Some 3
        \<and> previous_ptr (h' 3) = Some 1
        \<and> previous_ptr (h' 2) = None \<and> next_ptr (h' 2) = None
        \<and> static_double_list_links_linked 2 h' = Inr False)"
proof -
  let ?h = "projr (run 0 [Link_tail 1, Link_tail 2, Link_tail 3] zero_heap)"
  have p: "previous_ptr (?h 2) = Some 1" by (simp add: model_defs)
  have s: "next_ptr (?h 2) = Some 3" by (simp add: model_defs)
  from unlink_splices [of ?h 2 1 3, OF p s] p s show ?thesis by auto
qed

text \<open>
  C10: \<^verbatim>\<open>unlink()\<close> on a node with both pointers non-null leaves every node other than
  the node, its predecessor and its successor exactly as it was; of the predecessor (when
  it is not also the successor or the node) the \<^verbatim>\<open>previous\<close> pointer is unchanged, and
  of the successor (when it is not also the predecessor or the node) the \<^verbatim>\<open>next\<close>
  pointer is unchanged.
\<close>

theorem unlink_frame:
  assumes "previous_ptr (h n) = Some p" and "next_ptr (h n) = Some s"
  shows "\<exists>h'. static_double_list_links_unlink n h = Inr h'
    \<and> (\<forall>a. a \<noteq> n \<longrightarrow> a \<noteq> p \<longrightarrow> a \<noteq> s \<longrightarrow> h' a = h a)
    \<and> (p \<noteq> n \<longrightarrow> p \<noteq> s \<longrightarrow> previous_ptr (h' p) = previous_ptr (h p))
    \<and> (s \<noteq> n \<longrightarrow> s \<noteq> p \<longrightarrow> next_ptr (h' s) = next_ptr (h s))"
  using assms
  by (auto simp add: static_double_list_links_unlink_def static_double_list_links_linked_def
      static_double_list_links_clear_def set_next_def set_previous_def Let_def)

theorem unlink_frame_witness:
  "previous_ptr (projr (run 0 [Link_tail 1, Link_tail 2, Link_tail 3] zero_heap) 2) = Some 1
   \<and> next_ptr (projr (run 0 [Link_tail 1, Link_tail 2, Link_tail 3] zero_heap) 2) = Some 3
   \<and> (\<exists>h'. static_double_list_links_unlink 2
          (projr (run 0 [Link_tail 1, Link_tail 2, Link_tail 3] zero_heap)) = Inr h'
        \<and> h' 0 = projr (run 0 [Link_tail 1, Link_tail 2, Link_tail 3] zero_heap) 0
        \<and> previous_ptr (h' 1) = Some 0
        \<and> next_ptr (h' 3) = Some 0)"
proof -
  let ?h = "projr (run 0 [Link_tail 1, Link_tail 2, Link_tail 3] zero_heap)"
  have p: "previous_ptr (?h 2) = Some 1" by (simp add: model_defs)
  have s: "next_ptr (?h 2) = Some 3" by (simp add: model_defs)
  have p1: "previous_ptr (?h 1) = Some 0" by (simp add: model_defs)
  have n3: "next_ptr (?h 3) = Some 0" by (simp add: model_defs)
  from unlink_frame [of ?h 2 1 3, OF p s] obtain h' where
    "static_double_list_links_unlink 2 ?h = Inr h'"
    "\<forall>a. a \<noteq> 2 \<longrightarrow> a \<noteq> 1 \<longrightarrow> a \<noteq> 3 \<longrightarrow> h' a = ?h a"
    "previous_ptr (h' 1) = previous_ptr (?h 1)"
    "next_ptr (h' 3) = next_ptr (?h 3)"
    by auto
  moreover from this(2) have "h' 0 = ?h 0" by simp
  ultimately show ?thesis using p s p1 n3 by auto
qed

section \<open>The assertions of insert\_after\<close>

text \<open>
  C5, as stated, at the zero-initialised store: node 1 has both pointers null, and
  \<^verbatim>\<open>insert_after\<close> with node 2 as the position fails its third assertion, because the
  position itself is not linked.
\<close>

theorem insert_after_unlinked_position:
  "previous_ptr (zero_heap 1) = None \<and> next_ptr (zero_heap 1) = None
   \<and> static_double_list_insert_after 1 (Some 2) zero_heap = Inl AssertionFailure"
  by (simp add: model_defs)

lemma insert_after_fails_iff:
  "(static_double_list_insert_after node (Some a) h = Inl AssertionFailure)
     = (previous_ptr (h node) \<noteq> None \<or> next_ptr (h node) \<noteq> None \<or> next_ptr (h a) = None)"
proof (cases "previous_ptr (h node) = None \<and> next_ptr (h node) = None \<and> next_ptr (h a) \<noteq> None")
  case True
  then obtain s where "next_ptr (h a) = Some s" by auto
  with True insert_after_pointwise [of h node a s] show ?thesis by auto
next
  case False
  then show ?thesis by (auto simp add: static_double_list_insert_after_def)
qed

text \<open>
  C5 (amended): \<^verbatim>\<open>insert_after (node, after)\<close> fails an assertion exactly when one of
  the node's pointers is non-null or the \<^verbatim>\<open>next\<close> pointer of \<^verbatim>\<open>after\<close> is null.
  Linking a node with a non-null pointer fails an assertion, through \<^verbatim>\<open>insert_after\<close>
  at any position and through \<^verbatim>\<open>link\<close>. In a store reached from an empty list by
  calls of \<^verbatim>\<open>link\<close>, \<^verbatim>\<open>unlink\<close>, \<^verbatim>\<open>begin\<close>, \<^verbatim>\<open>empty\<close> and \<^verbatim>\<open>clear\<close>,
  \<^verbatim>\<open>link\<close> of an element node with both pointers null succeeds: no assertion fires.
\<close>

theorem insert_after_assertions:
  "((static_double_list_insert_after node (Some a) h = Inl AssertionFailure)
      = (previous_ptr (h node) \<noteq> None \<or> next_ptr (h node) \<noteq> None \<or> next_ptr (h a) = None))
   \<and> (previous_ptr (h node) \<noteq> None \<or> next_ptr (h node) \<noteq> None \<longrightarrow>
        static_double_list_insert_after node after h = Inl AssertionFailure
        \<and> static_double_list_link head node h = Inl AssertionFailure)
   \<and> (initially_empty head h0 \<and> head \<notin> set (operands cs) \<and> run head cs h0 = Inr h
        \<and> node \<noteq> head \<and> previous_ptr (h node) = None \<and> next_ptr (h node) = None \<longrightarrow>
        (\<exists>h'. static_double_list_link head node h = Inr h'))"
proof (intro conjI impI)
  show "(static_double_list_insert_after node (Some a) h = Inl AssertionFailure)
      = (previous_ptr (h node) \<noteq> None \<or> next_ptr (h node) \<noteq> None \<or> next_ptr (h a) = None)"
    by (rule insert_after_fails_iff)
next
  assume "previous_ptr (h node) \<noteq> None \<or> next_ptr (h node) \<noteq> None"
  then show "static_double_list_insert_after node after h = Inl AssertionFailure"
    by (rule link_linked_fails)
next
  assume "previous_ptr (h node) \<noteq> None \<or> next_ptr (h node) \<noteq> None"
  then show "static_double_list_link head node h = Inl AssertionFailure"
    by (rule link_linked_fails)
next
  assume a: "initially_empty head h0 \<and> head \<notin> set (operands cs) \<and> run head cs h0 = Inr h
        \<and> node \<noteq> head \<and> previous_ptr (h node) = None \<and> next_ptr (h node) = None"
  then have "links_inv head h"
    using links_inv_initially_empty [of head h0] links_inv_run [of head h0 cs h] by blast
  with a links_inv_link [of head h node]
  show "\<exists>h'. static_double_list_link head node h = Inr h'" by blast
qed

theorem insert_after_assertions_witness:
  "static_double_list_insert_after 2 (Some 1) (projr (run 0 [Link_tail 1] zero_heap))
      \<noteq> Inl AssertionFailure
   \<and> static_double_list_insert_after 1 (Some 0) (projr (run 0 [Link_tail 1] zero_heap))
      = Inl AssertionFailure
   \<and> static_double_list_link 0 1 (projr (run 0 [Link_tail 1] zero_heap)) = Inl AssertionFailure
   \<and> (\<exists>h'. static_double_list_link 0 2 (projr (run 0 [Link_tail 1] zero_heap)) = Inr h')"
proof -
  let ?h = "projr (run 0 [Link_tail 1] zero_heap)"
  have i: "initially_empty 0 zero_heap" by (simp add: initially_empty_def)
  have o: "0 \<notin> set (operands [Link_tail 1])" by (simp add: operands_def)
  have r: "run 0 [Link_tail 1] zero_heap = Inr ?h" by (simp add: model_defs)
  have l1: "previous_ptr (?h 1) \<noteq> None \<or> next_ptr (?h 1) \<noteq> None" by (simp add: model_defs)
  have n1: "next_ptr (?h 1) \<noteq> None" by (simp add: model_defs)
  have n2: "previous_ptr (?h 2) = None" "next_ptr (?h 2) = None" by (simp_all add: model_defs)
  from insert_after_assertions [of 2 1 ?h "Some 1" 0 zero_heap "[Link_tail 1]"] n1 n2 i o r
  have "static_double_list_insert_after 2 (Some 1) ?h \<noteq> Inl AssertionFailure"
    and "\<exists>h'. static_double_list_link 0 2 ?h = Inr h'" by auto
  moreover from insert_after_assertions [of 1 0 ?h "Some 0" 0 zero_heap "[Link_tail 1]"] l1
  have "static_double_list_insert_after 1 (Some 0) ?h = Inl AssertionFailure"
    and "static_double_list_link 0 1 ?h = Inl AssertionFailure" by auto
  ultimately show ?thesis by blast
qed

section \<open>Construction and destruction of double\_list\<close>

lemma double_list_link_is_link:
  "is_list head h xs \<Longrightarrow> double_list_link head n h = static_double_list_link head n h"
  using is_list_initialized [of head h xs]
  by (simp add: double_list_link_def static_double_list_link_def)

lemma destruct_list:
  assumes "is_list head h xs"
  shows "(double_list_destruct head h = Inl AssertionFailure) = (xs \<noteq> [])"
proof (cases xs)
  case Nil
  with assms show ?thesis
    by (simp add: double_list_destruct_def static_double_list_empty_def is_list_def)
next
  case (Cons x ys)
  with assms have "next_ptr (h head) = Some x" and "x \<noteq> head"
    by (auto simp add: is_list_def)
  with Cons is_list_initialized [OF assms] show ?thesis
    by (simp add: double_list_destruct_def static_double_list_empty_def)
qed

text \<open>
  C7: a freshly constructed \<^verbatim>\<open>double_list\<close> is empty and its destructor passes its
  assertion; on a store holding a list \<open>xs\<close> at the head, the destructor fails its
  assertion exactly when \<open>xs\<close> is not empty; in particular it fails after an unlinked
  node has been linked into the freshly constructed list.
\<close>

theorem dynamic_list_destruction:
  "fst (static_double_list_empty head (double_list_construct head h))
   \<and> double_list_destruct head (double_list_construct head h) = Inr (double_list_construct head h)
   \<and> (is_list head h xs \<longrightarrow> (double_list_destruct head h = Inl AssertionFailure) = (xs \<noteq> []))
   \<and> (node \<noteq> head \<and> previous_ptr (h node) = None \<and> next_ptr (h node) = None \<longrightarrow>
        (\<exists>h1. double_list_link head node (double_list_construct head h) = Inr h1
           \<and> is_list head h1 [node]
           \<and> double_list_destruct head h1 = Inl AssertionFailure))"
proof (intro conjI impI)
  show e: "fst (static_double_list_empty head (double_list_construct head h))"
    by (simp add: static_double_list_empty_def double_list_construct_def clear_pointwise)
  then show "double_list_destruct head (double_list_construct head h)
      = Inr (double_list_construct head h)"
    by (simp add: double_list_destruct_def)
next
  assume "is_list head h xs"
  then show "(double_list_destruct head h = Inl AssertionFailure) = (xs \<noteq> [])"
    by (rule destruct_list)
next
  assume a: "node \<noteq> head \<and> previous_ptr (h node) = None \<and> next_ptr (h node) = None"
  let ?c = "double_list_construct head h"
  have lst: "is_list head ?c []" by (simp add: double_list_construct_def is_list_clear)
  have ni: "node \<notin> set (head # [])" using a by simp
  have pn: "previous_ptr (?c node) = None" and nn: "next_ptr (?c node) = None"
    using a by (simp_all add: double_list_construct_def clear_pointwise)
  from link_appends [OF lst ni pn nn] obtain h1 where
    h1: "static_double_list_link head node ?c = Inr h1" "is_list head h1 ([] @ [node])" by blast
  from h1(2) have l1: "is_list head h1 [node]" by simp
  from destruct_list [OF l1] have "double_list_destruct head h1 = Inl AssertionFailure" by simp
  with h1(1) l1 double_list_link_is_link [OF lst, of node]
  show "\<exists>h1. double_list_link head node ?c = Inr h1 \<and> is_list head h1 [node]
      \<and> double_list_destruct head h1 = Inl AssertionFailure" by simp
qed

theorem dynamic_list_destruction_witness:
  "fst (static_double_list_empty 0 (double_list_construct 0 zero_heap))
   \<and> double_list_destruct 0 (double_list_construct 0 zero_heap) = Inr (double_list_construct 0 zero_heap)
   \<and> is_list 0 (double_list_construct 0 zero_heap) []
   \<and> double_list_destruct 0 (double_list_construct 0 zero_heap) \<noteq> Inl AssertionFailure
   \<and> (\<exists>h1. double_list_link 0 1 (double_list_construct 0 zero_heap) = Inr h1
           \<and> is_list 0 h1 [1]
           \<and> double_list_destruct 0 h1 = Inl AssertionFailure)"
proof -
  let ?c = "double_list_construct 0 zero_heap"
  have l: "is_list 0 ?c []" by (simp add: double_list_construct_def is_list_clear)
  have n: "(1::nat) \<noteq> 0 \<and> previous_ptr (zero_heap 1) = None \<and> next_ptr (zero_heap 1) = None"
    by (simp add: zero_heap_def)
  from dynamic_list_destruction [of 0 zero_heap "[]" 1] n
  have "fst (static_double_list_empty 0 ?c)"
    and "double_list_destruct 0 ?c = Inr ?c"
    and "\<exists>h1. double_list_link 0 1 ?c = Inr h1 \<and> is_list 0 h1 [1]
           \<and> double_list_destruct 0 h1 = Inl AssertionFailure"
    by blast+
  moreover from dynamic_list_destruction [of 0 ?c "[]" 1] l
  have "double_list_destruct 0 ?c \<noteq> Inl AssertionFailure" by blast
  ultimately show ?thesis using l by blast
qed

section \<open>Address recovery of the intrusive adaptor\<close>

lemma get_pointer_link_member:
  "intrusive_list_get_pointer offset (link_member offset object) = object"
  by (simp add: intrusive_list_get_pointer_def link_member_def)

lemma map_get_pointer_link_member:
  "map (intrusive_list_get_pointer offset \<circ> link_member offset) owners = owners"
  by (induction owners) (simp_all add: get_pointer_link_member)

lemma is_list_not_empty:
  assumes "is_list head h (xs @ [x])"
  shows "\<not> fst (static_double_list_empty head h)"
    and "static_double_list_tail head h = Some x"
proof -
  from assms have ch: "chain h head (xs @ [x]) head" and d: "distinct (head # xs @ [x])"
    by (simp_all add: is_list_def)
  from chain_ends [OF ch] show "static_double_list_tail head h = Some x"
    by (simp add: static_double_list_tail_def)
  from ch obtain y where "next_ptr (h head) = Some y" "y \<in> set (xs @ [x])"
    by (cases xs) auto
  with d is_list_initialized [OF assms] show "\<not> fst (static_double_list_empty head h)"
    by (auto simp add: static_double_list_empty_def)
qed

text \<open>
  C8: for every offset of the link member and every owning object whose link member is
  unlinked and is not yet in the list, \<^verbatim>\<open>link_tail\<close> of the owner succeeds; iterating
  the adaptor then yields the owners linked before followed by the address of the owner
  itself, \<^verbatim>\<open>unlink_tail\<close> returns exactly that address, and so does \<^verbatim>\<open>unlink_head\<close>
  when the owner is the only element.
\<close>

theorem intrusive_address_recovery:
  assumes "is_list head h (map (link_member offset) owners)
      \<or> (owners = [] \<and> previous_ptr (h head) = None \<and> next_ptr (h head) = None)"
    and "link_member offset object \<notin> set (head # map (link_member offset) owners)"
    and "previous_ptr (h (link_member offset object)) = None"
    and "next_ptr (h (link_member offset object)) = None"
  shows "\<exists>h'. intrusive_list_link_tail offset head object h = Inr h'
    \<and> fst (intrusive_list_iterate offset head h') = Some (Inr (owners @ [object]))
    \<and> (\<exists>h''. intrusive_list_unlink_tail offset head h' = Inr (Some object, h''))
    \<and> (owners = [] \<longrightarrow> (\<exists>h''. intrusive_list_unlink_head offset head h' = Inr (Some object, h'')))"
proof -
  let ?n = "link_member offset object"
  let ?xs = "map (link_member offset) owners"
  have "\<exists>h'. static_double_list_link head ?n h = Inr h' \<and> is_list head h' (?xs @ [?n])"
    using assms(1)
  proof (elim disjE)
    assume "is_list head h ?xs"
    from link_appends [OF this assms(2,3,4)] show ?thesis by blast
  next
    assume e: "owners = [] \<and> previous_ptr (h head) = None \<and> next_ptr (h head) = None"
    then have "(previous_ptr (h head) = None \<and> next_ptr (h head) = None)
      \<or> (previous_ptr (h head) = Some head \<and> next_ptr (h head) = Some head)" by simp
    moreover from assms(2) have "?n \<noteq> head" by simp
    ultimately show ?thesis
      using link_on_empty [of h head ?n] assms(3,4) e by auto
  qed
  then obtain h' where lk: "static_double_list_link head ?n h = Inr h'"
    and lst: "is_list head h' (?xs @ [?n])" by blast
  have "intrusive_list_link_tail offset head object h = Inr h'"
    using lk by (simp add: intrusive_list_link_tail_def)
  moreover have "fst (intrusive_list_iterate offset head h') = Some (Inr (owners @ [object]))"
    using iterate_list [OF lst]
    by (simp add: intrusive_list_iterate_def map_get_pointer_link_member get_pointer_link_member)
  moreover from unlink_removes [OF lst, of ?n] obtain h'' where
    un: "static_double_list_links_unlink ?n h' = Inr h''" by auto
  have "intrusive_list_unlink_tail offset head h' = Inr (Some object, h'')"
    using is_list_not_empty [OF lst] un
    by (simp add: intrusive_list_unlink_tail_def get_pointer_link_member)
  moreover have "owners = [] \<longrightarrow> intrusive_list_unlink_head offset head h' = Inr (Some object, h'')"
  proof
    assume "owners = []"
    with lst have "next_ptr (h' head) = Some ?n" by (simp add: is_list_def)
    with is_list_not_empty(1) [OF lst] un
    show "intrusive_list_unlink_head offset head h' = Inr (Some object, h'')"
      by (simp add: intrusive_list_unlink_head_def get_pointer_link_member)
  qed
  ultimately show ?thesis by blast
qed

theorem intrusive_address_recovery_witness:
  "previous_ptr (zero_heap 0) = None \<and> next_ptr (zero_heap 0) = None
   \<and> link_member 8 100 \<notin> set (0 # map (link_member 8) [])
   \<and> previous_ptr (zero_heap (link_member 8 100)) = None
   \<and> next_ptr (zero_heap (link_member 8 100)) = None
   \<and> (\<exists>h'. intrusive_list_link_tail 8 0 100 zero_heap = Inr h'
        \<and> fst (intrusive_list_iterate 8 0 h') = Some (Inr [100])
        \<and> (\<exists>h''. intrusive_list_unlink_tail 8 0 h' = Inr (Some 100, h''))
        \<and> (\<exists>h''. intrusive_list_unlink_head 8 0 h' = Inr (Some 100, h'')))"
proof -
  have z: "previous_ptr (zero_heap 0) = None \<and> next_ptr (zero_heap 0) = None"
    by (simp add: zero_heap_def)
  then have a: "is_list 0 zero_heap (map (link_member 8) [])
      \<or> ([] = ([]::nat list) \<and> previous_ptr (zero_heap 0) = None \<and> next_ptr (zero_heap 0) = None)"
    by simp
  have b: "link_member 8 100 \<notin> set (0 # map (link_member 8) [])"
    by (simp add: link_member_def)
  have c: "previous_ptr (zero_heap (link_member 8 100)) = None"
    and d: "next_ptr (zero_heap (link_member 8 100)) = None"
    by (simp_all add: zero_heap_def)
  from intrusive_address_recovery [OF a b c d] z b c d show ?thesis by auto
qed

end
